theory Spec2Isabelle
  imports Complex_Main "HOL-Library.Log_Nat"
begin

section \<open>Data model of \<open>medacy/data/annotations.py\<close>\<close>

text \<open>
  An entity is the Python tuple \<open>(label, start, end, text)\<close>. Offsets are Python
  integers (unbounded), so they are \<open>int\<close>; nothing in the class checks
  \<open>start < end\<close>.
\<close>

type_synonym span = "string \<times> int \<times> int \<times> string"

text \<open>
  A Python \<open>dict\<close> keeps its keys in insertion order, and \<open>values()\<close> lists the
  values in that order: it is an association list with distinct keys.
  \<open>d.update({k: v})\<close> and \<open>d[k] = v\<close> overwrite the entry of an existing key in
  place and append a new key at the end.
\<close>

type_synonym ('k, 'v) dict = "('k \<times> 'v) list"

fun dict_update :: "'k \<Rightarrow> 'v \<Rightarrow> ('k, 'v) dict \<Rightarrow> ('k, 'v) dict" where
  "dict_update k v [] = [(k, v)]"
| "dict_update k v ((k', v') # d) =
     (if k' = k then (k, v) # d else (k', v') # dict_update k v d)"

definition dict_get :: "('k, 'v) dict \<Rightarrow> 'k \<Rightarrow> 'v option" where
  "dict_get d k = map_of d k"

definition dict_keys :: "('k, 'v) dict \<Rightarrow> 'k list" where
  "dict_keys d = map fst d"

definition dict_values :: "('k, 'v) dict \<Rightarrow> 'v list" where
  "dict_values d = map snd d"

text \<open>
  A Python \<open>set\<close> is represented by a list without duplicates; \<open>set_add\<close> is
  \<open>s.add(x)\<close>, \<open>py_set\<close> is the constructor \<open>set(xs)\<close> and \<open>set_minus\<close> is the
  operator \<open>-\<close> between two sets. Python does not fix the iteration order of a
  set; the theorems below read such a value through \<open>set\<close> and \<open>length\<close> only.
\<close>

type_synonym 'a pyset = "'a list"

definition set_add :: "'a \<Rightarrow> 'a pyset \<Rightarrow> 'a pyset" where
  "set_add x s = (if x \<in> set s then s else s @ [x])"

definition py_set :: "'a list \<Rightarrow> 'a pyset" where
  "py_set xs = fold set_add xs []"

definition set_minus :: "'a pyset \<Rightarrow> 'a pyset \<Rightarrow> 'a pyset" where
  "set_minus s t = filter (\<lambda>x. x \<notin> set t) s"

text \<open>The exceptions the modelled methods can raise.\<close>

datatype error = ValueError | TypeError | KeyError

text \<open>
  The object wraps the dictionary \<open>{'entities': {...}, 'relations': [...]}\<close>.
\<close>

record annotations =
  entities :: "(string, span) dict"
  relations :: "(string \<times> string \<times> string) list"

text \<open>
  \<open>get_entity_annotations()\<close> with its default arguments:
  \<open>list(self.annotations['entities'].values())\<close>.
\<close>

definition get_entity_annotations :: "annotations \<Rightarrow> span list" where
  "get_entity_annotations self = dict_values (entities self)"

definition get_labels :: "annotations \<Rightarrow> string set" where
  "get_labels self = set (map fst (dict_values (entities self)))"

section \<open>\<open>add_entity\<close>\<close>

text \<open>The format \<open>'%i'\<close> of a non-negative integer: its decimal digits.\<close>

definition digit_char :: "nat \<Rightarrow> char" where
  "digit_char d = char_of (48 + d)"

fun format_i :: "nat \<Rightarrow> string" where
  "format_i n =
     (if n < 10 then [digit_char n] else format_i (n div 10) @ [digit_char (n mod 10)])"

declare format_i.simps [simp del]

text \<open>
  \<open>self.annotations['entities'].update({'T%i' % (len(entities) + 1): (label, start, end, text)})\<close>
\<close>

definition add_entity :: "annotations \<Rightarrow> string \<Rightarrow> int \<Rightarrow> int \<Rightarrow> string \<Rightarrow> annotations" where
  "add_entity self label start end text =
     self\<lparr>entities :=
       dict_update (''T'' @ format_i (length (entities self) + 1)) (label, start, end, text)
         (entities self)\<rparr>"

section \<open>\<open>difference\<close> and \<open>intersection\<close>\<close>

text \<open>
  \<open>window = ceil(leniency * (end - start))\<close>. The leniency is a Python float and
  the width an \<open>int\<close>: Python converts the width to a double (\<open>float_of_int\<close>)
  and multiplies in IEEE 754 binary64 arithmetic (\<open>float_mul\<close>), each time
  rounding to the nearest double, ties to the even significand; \<open>math.ceil\<close>
  then returns the exact integer ceiling of the product.

  A double is modelled by the real number it stands for, and \<open>round_double\<close>
  rounds a real to 53 significant bits: \<open>binary_exponent x\<close> is the \<open>e\<close> with
  \<open>2^e \<le> x < 2^(e+1)\<close> and the spacing of the doubles around \<open>x\<close> is
  \<open>2^(e-52)\<close>. The exponent range of binary64 is not represented. The
  conversion of a width of magnitude \<open>2^1024\<close> or more raises \<open>OverflowError\<close>
  in Python and is outside the model, as are the infinities and NaN. The
  integer leniencies \<open>0\<close> and \<open>1\<close> multiply exactly in Python; the model gives
  the same product for them as long as the width is at most \<open>2^53\<close> in
  magnitude, where the conversion of the width is exact.
\<close>

definition round_half_even :: "real \<Rightarrow> int" where
  "round_half_even x =
     (let f = \<lfloor>x\<rfloor> in
      if x - of_int f < 1/2 then f
      else if 1/2 < x - of_int f then f + 1
      else if even f then f else f + 1)"

definition binary_exponent :: "real \<Rightarrow> int" where
  "binary_exponent x = (if 1 \<le> x then bitlen \<lfloor>x\<rfloor> - 1 else - bitlen (\<lceil>1 / x\<rceil> - 1))"

definition round_double :: "real \<Rightarrow> real" where
  "round_double x =
     (if x = 0 then 0
      else (let ulp = 2 powi (binary_exponent \<bar>x\<bar> - 52)
            in of_int (round_half_even (x / ulp)) * ulp))"

definition float_of_int :: "int \<Rightarrow> real" where
  "float_of_int n = round_double (of_int n)"

definition float_mul :: "real \<Rightarrow> int \<Rightarrow> real" where
  "float_mul a n = round_double (a * float_of_int n)"

definition window_of :: "real \<Rightarrow> int \<Rightarrow> int \<Rightarrow> int" where
  "window_of leniency start end = \<lceil>float_mul leniency (end - start)\<rceil>"

text \<open>
  The inner loop over the entities of the other object. It returns whether the
  body reached \<open>matches.add(...)\<close>, after which the loop is left by \<open>break\<close>.
\<close>

fun match_scan :: "span \<Rightarrow> int \<Rightarrow> span list \<Rightarrow> bool" where
  "match_scan a window [] = False"
| "match_scan (label, start, end, text) window ((c_label, c_start, c_end, c_text) # cs) =
     (if label = c_label then
        (if start - window \<le> c_start \<and> end + window \<ge> c_end then True
         else match_scan (label, start, end, text) window cs)
      else match_scan (label, start, end, text) window cs)"

text \<open>The outer loop, with the set \<open>matches\<close> as accumulator.\<close>

fun match_loop :: "real \<Rightarrow> span list \<Rightarrow> span list \<Rightarrow> span pyset \<Rightarrow> span pyset" where
  "match_loop leniency [] others matches = matches"
| "match_loop leniency ((label, start, end, text) # rest) others matches =
     match_loop leniency rest others
       (if match_scan (label, start, end, text) (window_of leniency start end) others
        then set_add (label, start, end, text) matches else matches)"

text \<open>
  At leniency \<open>0\<close>, \<open>difference\<close> evaluates
  \<open>set(self.get_entity_annotations()) - annotations.get_entity_annotations()\<close>:
  the right operand is the list that \<open>get_entity_annotations\<close> returns, not a
  set. Python's \<open>set.__sub__\<close> accepts only a set as its other operand and a list
  has no reflected \<open>__rsub__\<close>, so the expression raises \<open>TypeError\<close> whatever
  the two operands contain.
\<close>

definition set_sub_list :: "'a pyset \<Rightarrow> 'a list \<Rightarrow> error + 'a pyset" where
  "set_sub_list s xs = Inl TypeError"

definition difference :: "annotations \<Rightarrow> annotations \<Rightarrow> real \<Rightarrow> error + span pyset" where
  "difference self other leniency =
     (if leniency \<noteq> 0 then
        (if \<not> (0 \<le> leniency \<and> leniency \<le> 1) then Inl ValueError
         else Inr (set_minus (py_set (get_entity_annotations self))
                     (match_loop leniency (get_entity_annotations self)
                        (get_entity_annotations other) [])))
      else set_sub_list (py_set (get_entity_annotations self)) (get_entity_annotations other))"

definition intersection :: "annotations \<Rightarrow> annotations \<Rightarrow> real \<Rightarrow> error + span pyset" where
  "intersection self other leniency =
     (if leniency \<noteq> 0 \<and> \<not> (0 \<le> leniency \<and> leniency \<le> 1) then Inl ValueError
      else Inr (match_loop leniency (get_entity_annotations self)
                  (get_entity_annotations other) []))"

section \<open>\<open>compute_ambiguity\<close>\<close>

text \<open>
  The body of the inner loop on an overlap is
  \<open>ambiguity_dict[key] = []\<close> followed by \<open>ambiguity_dict[key].append(c)\<close>.
\<close>

definition dict_append :: "'k \<Rightarrow> 'v \<Rightarrow> ('k, 'v list) dict \<Rightarrow> ('k, 'v list) dict" where
  "dict_append k v d = (case dict_get d k of None \<Rightarrow> d | Some vs \<Rightarrow> dict_update k (vs @ [v]) d)"

fun ambiguity_scan ::
  "span \<Rightarrow> span list \<Rightarrow> (span, span list) dict \<Rightarrow> (span, span list) dict" where
  "ambiguity_scan a [] ambiguity_dict = ambiguity_dict"
| "ambiguity_scan (label, start, end, text) ((c_label, c_start, c_end, c_text) # cs) ambiguity_dict =
     (if label = c_label then ambiguity_scan (label, start, end, text) cs ambiguity_dict
      else
        (let overlap = max 0 (min end c_end - max c_start start) in
         if overlap \<noteq> 0 then
           ambiguity_scan (label, start, end, text) cs
             (dict_append (label, start, end, text) (c_label, c_start, c_end, c_text)
                (dict_update (label, start, end, text) [] ambiguity_dict))
         else ambiguity_scan (label, start, end, text) cs ambiguity_dict))"

fun ambiguity_loop ::
  "span list \<Rightarrow> span list \<Rightarrow> (span, span list) dict \<Rightarrow> (span, span list) dict" where
  "ambiguity_loop [] others ambiguity_dict = ambiguity_dict"
| "ambiguity_loop (a # rest) others ambiguity_dict =
     ambiguity_loop rest others (ambiguity_scan a others ambiguity_dict)"

definition compute_ambiguity :: "annotations \<Rightarrow> annotations \<Rightarrow> (span, span list) dict" where
  "compute_ambiguity self other =
     ambiguity_loop (get_entity_annotations self) (get_entity_annotations other) []"

section \<open>\<open>compute_confusion_matrix\<close>\<close>

type_synonym matrix = "int list list"

text \<open>\<open>{entity: int(i) for i, entity in enumerate(entities)}\<close>\<close>

definition entity_encoding :: "string list \<Rightarrow> (string, nat) dict" where
  "entity_encoding ents = fold (\<lambda>(i, entity) d. dict_update entity i d) (enumerate 0 ents) []"

text \<open>\<open>[[0 for x in range(len(entities))] for x in range(len(entities))]\<close>\<close>

definition zero_matrix :: "nat \<Rightarrow> matrix" where
  "zero_matrix n = map (\<lambda>x. map (\<lambda>x. 0) [0..<n]) [0..<n]"

text \<open>
  \<open>confusion_matrix[enc[r]][enc[c]] += 1\<close>: a label that is not a key of the
  encoding raises \<open>KeyError\<close>. The indices stored in the encoding are positions
  of the vocabulary, hence within the matrix.
\<close>

definition increment :: "(string, nat) dict \<Rightarrow> string \<Rightarrow> string \<Rightarrow> matrix \<Rightarrow> error + matrix" where
  "increment enc r c m =
     (case dict_get enc r of None \<Rightarrow> Inl KeyError
      | Some i \<Rightarrow>
         (case dict_get enc c of None \<Rightarrow> Inl KeyError
          | Some j \<Rightarrow> Inr (m[i := (m ! i)[j := m ! i ! j + 1]])))"

fun offdiag_inner :: "(string, nat) dict \<Rightarrow> string \<Rightarrow> span list \<Rightarrow> matrix \<Rightarrow> error + matrix" where
  "offdiag_inner enc gold_label [] m = Inr m"
| "offdiag_inner enc gold_label ((ambiguous_label, _, _, _) # rest) m =
     (case increment enc gold_label ambiguous_label m of
        Inl e \<Rightarrow> Inl e
      | Inr m' \<Rightarrow> offdiag_inner enc gold_label rest m')"

fun offdiag_loop ::
  "(string, nat) dict \<Rightarrow> (span, span list) dict \<Rightarrow> matrix \<Rightarrow> error + matrix" where
  "offdiag_loop enc [] m = Inr m"
| "offdiag_loop enc (((gold_label, start, end, text), ambiguous) # rest) m =
     (case offdiag_inner enc gold_label ambiguous m of
        Inl e \<Rightarrow> Inl e
      | Inr m' \<Rightarrow> offdiag_loop enc rest m')"

fun diag_loop :: "(string, nat) dict \<Rightarrow> span list \<Rightarrow> matrix \<Rightarrow> error + matrix" where
  "diag_loop enc [] m = Inr m"
| "diag_loop enc ((matching_label, start, end, text) # rest) m =
     (case increment enc matching_label matching_label m of
        Inl e \<Rightarrow> Inl e
      | Inr m' \<Rightarrow> diag_loop enc rest m')"

definition compute_confusion_matrix ::
  "annotations \<Rightarrow> annotations \<Rightarrow> string list \<Rightarrow> real \<Rightarrow> error + matrix" where
  "compute_confusion_matrix self other ents leniency =
     (let entity_enc = entity_encoding ents;
          confusion_matrix = zero_matrix (length ents);
          ambiguity_dict = compute_ambiguity self other
      in case intersection self other leniency of
           Inl e \<Rightarrow> Inl e
         | Inr matching \<Rightarrow>
            (case offdiag_loop entity_enc ambiguity_dict confusion_matrix of
               Inl e \<Rightarrow> Inl e
             | Inr m \<Rightarrow> diag_loop entity_enc matching m))"

text \<open>The sum of the main diagonal of a matrix.\<close>

definition diag_sum :: "matrix \<Rightarrow> int" where
  "diag_sum m = sum_list (map (\<lambda>i. m ! i ! i) [0..<length m])"

section \<open>Concrete entity sets\<close>

text \<open>The entity sets used to evaluate the methods at concrete inputs.\<close>

definition drug_10_20 :: annotations where
  "drug_10_20 = \<lparr>entities = [(''T1'', (''Drug'', 10, 20, ''x''))], relations = []\<rparr>"

definition drug_6_24 :: annotations where
  "drug_6_24 = \<lparr>entities = [(''T1'', (''Drug'', 6, 24, ''y''))], relations = []\<rparr>"

definition drug_12_18 :: annotations where
  "drug_12_18 = \<lparr>entities = [(''T1'', (''Drug'', 12, 18, ''y''))], relations = []\<rparr>"

definition warfarin :: annotations where
  "warfarin = \<lparr>entities = [(''T1'', (''Drug'', 10, 20, ''warfarin''))], relations = []\<rparr>"

definition dose_freq :: annotations where
  "dose_freq =
     \<lparr>entities = [(''T1'', (''Dose'', 12, 18, ''5mg'')), (''T2'', (''Freq'', 11, 13, ''bid''))],
      relations = []\<rparr>"

definition reversed_20_10 :: annotations where
  "reversed_20_10 = \<lparr>entities = [(''T1'', (''Drug'', 20, 10, ''x''))], relations = []\<rparr>"

definition gap_ids :: annotations where
  "gap_ids = \<lparr>entities = [(''T2'', (''Drug'', 0, 4, ''abcd''))], relations = []\<rparr>"

definition dose_and_drug :: annotations where
  "dose_and_drug =
     \<lparr>entities = [(''T1'', (''Dose'', 12, 18, ''5mg'')), (''T2'', (''Drug'', 10, 20, ''warfarin''))],
      relations = []\<rparr>"

text \<open>
  The doubles that the Python literals \<open>0.07\<close> and \<open>0.1\<close> denote, and entity
  sets on which their rounded products decide the match.
\<close>

definition double_0_07 :: real where
  "double_0_07 = 1261007895663739 / 18014398509481984"

definition double_0_1 :: real where
  "double_0_1 = 3602879701896397 / 36028797018963968"

definition drug_100_200 :: annotations where
  "drug_100_200 = \<lparr>entities = [(''T1'', (''Drug'', 100, 200, ''x''))], relations = []\<rparr>"

definition drug_92_200 :: annotations where
  "drug_92_200 = \<lparr>entities = [(''T1'', (''Drug'', 92, 200, ''y''))], relations = []\<rparr>"

definition drug_8_20 :: annotations where
  "drug_8_20 = \<lparr>entities = [(''T1'', (''Drug'', 8, 20, ''y''))], relations = []\<rparr>"

section \<open>Auxiliary predicates\<close>

text \<open>
  Invariants used in the proofs about the confusion matrix: a matrix with \<open>n\<close>
  rows of length \<open>n\<close>; an encoding whose indices lie below \<open>n\<close> and belong to
  one label each; an ambiguity dictionary whose keys come from \<open>K\<close> and whose
  listed entities come from \<open>V\<close> and carry another label than their key.
\<close>

definition square :: "nat \<Rightarrow> matrix \<Rightarrow> bool" where
  "square n m \<longleftrightarrow> length m = n \<and> (\<forall>i<n. length (m ! i) = n)"

definition injective_below :: "nat \<Rightarrow> (string, nat) dict \<Rightarrow> bool" where
  "injective_below n enc \<longleftrightarrow>
     (\<forall>e i. dict_get enc e = Some i \<longrightarrow> i < n \<and> (\<forall>e'. dict_get enc e' = Some i \<longrightarrow> e' = e))"

definition well_labelled :: "span set \<Rightarrow> span set \<Rightarrow> (span, span list) dict \<Rightarrow> bool" where
  "well_labelled K V d \<longleftrightarrow>
     (\<forall>(k, vs) \<in> set d. k \<in> K \<and> (\<forall>v \<in> set vs. v \<in> V \<and> fst v \<noteq> fst k))"

section \<open>Sets as duplicate-free lists\<close>

lemmas eval_defs = get_entity_annotations_def dict_values_def set_add_def
  py_set_def set_minus_def set_sub_list_def dict_get_def dict_append_def

lemma set_set_add: "set (set_add x s) = insert x (set s)"
  by (auto simp: set_add_def)

lemma distinct_set_add: "distinct s \<Longrightarrow> distinct (set_add x s)"
  by (simp add: set_add_def)

lemma set_fold_set_add: "set (fold set_add xs acc) = set xs \<union> set acc"
  by (induction xs arbitrary: acc) (auto simp: set_set_add)

lemma distinct_fold_set_add: "distinct acc \<Longrightarrow> distinct (fold set_add xs acc)"
  by (induction xs arbitrary: acc) (auto simp: distinct_set_add)

lemma set_py_set: "set (py_set xs) = set xs"
  by (simp add: py_set_def set_fold_set_add)

lemma distinct_py_set: "distinct (py_set xs)"
  by (simp add: py_set_def distinct_fold_set_add)

lemma set_set_minus: "set (set_minus s t) = set s - set t"
  by (auto simp: set_minus_def)

section \<open>Rounding to a double\<close>

text \<open>
  Rounding to the nearest integer, ties to even, is monotone and leaves
  integers alone.
\<close>

lemma round_half_even_bounds:
  "of_int (round_half_even x) \<le> x + 1/2 \<and> x - 1/2 \<le> of_int (round_half_even x)"
  unfolding round_half_even_def Let_def by (auto; linarith)

lemma round_half_even_of_int: "round_half_even (of_int n) = n"
  by (simp add: round_half_even_def)

lemma round_half_even_mono:
  assumes "x \<le> y"
  shows "round_half_even x \<le> round_half_even y"
proof (cases "\<lfloor>x\<rfloor> = \<lfloor>y\<rfloor>")
  case True
  with assms show ?thesis
    unfolding round_half_even_def Let_def by (auto; linarith)
next
  case False
  with assms have lt: "\<lfloor>x\<rfloor> + 1 \<le> \<lfloor>y\<rfloor>"
    using floor_mono [of x y] by linarith
  have "round_half_even x \<le> \<lfloor>x\<rfloor> + 1"
    unfolding round_half_even_def Let_def by auto
  moreover have "\<lfloor>y\<rfloor> \<le> round_half_even y"
    unfolding round_half_even_def Let_def by auto
  ultimately show ?thesis
    using lt by linarith
qed

text \<open>The exponent brackets its argument between two powers of two.\<close>

lemma binary_exponent_bounds:
  assumes "0 < x"
  shows "2 powi binary_exponent x \<le> x \<and> x < 2 powi (binary_exponent x + 1)"
proof (cases "1 \<le> x")
  case True
  let ?n = "\<lfloor>x\<rfloor>"
  let ?b = "bitlen ?n"
  from True have n: "0 < ?n" by simp
  from bitlen_bounds [OF n] have lo: "2 ^ nat (?b - 1) \<le> ?n" and hi: "?n < 2 ^ nat ?b"
    by simp_all
  from n have b: "1 \<le> ?b"
    using bitlen_eq_zero_iff [of ?n] bitlen_nonneg [of ?n] by linarith
  have e: "binary_exponent x = ?b - 1"
    using True by (simp add: binary_exponent_def)
  have "(2::real) ^ nat (?b - 1) = of_int (2 ^ nat (?b - 1))" by simp
  also have "\<dots> \<le> of_int ?n" using lo by (simp only: of_int_le_iff)
  also have "\<dots> \<le> x" by simp
  finally have 1: "2 powi (?b - 1) \<le> x"
    using b by (simp add: power_int_nonneg_exp)
  from hi have "?n + 1 \<le> 2 ^ nat ?b" by simp
  then have "of_int (?n + 1) \<le> (of_int (2 ^ nat ?b) :: real)" by (simp only: of_int_le_iff)
  then have "of_int ?n + 1 \<le> (2::real) ^ nat ?b" by simp
  moreover have "x < of_int ?n + 1" by linarith
  ultimately have "x < (2::real) ^ nat ?b" by linarith
  then have 2: "x < 2 powi ?b"
    using b by (simp add: power_int_nonneg_exp)
  from 1 2 show ?thesis
    by (simp add: e)
next
  case False
  let ?c = "\<lceil>1 / x\<rceil>"
  let ?b = "bitlen (?c - 1)"
  from False assms have inv: "1 < 1 / x" by simp
  then have c: "2 \<le> ?c" by linarith
  then have m: "0 < ?c - 1" by simp
  from bitlen_bounds [OF m] have lo: "2 ^ nat (?b - 1) \<le> ?c - 1" and hi: "?c - 1 < 2 ^ nat ?b"
    by simp_all
  from m have b: "1 \<le> ?b"
    using bitlen_eq_zero_iff [of "?c - 1"] bitlen_nonneg [of "?c - 1"] by linarith
  have e: "binary_exponent x = - ?b"
    using False by (simp add: binary_exponent_def)
  from hi have "?c \<le> 2 ^ nat ?b" by simp
  then have "of_int ?c \<le> (of_int (2 ^ nat ?b) :: real)" by (simp only: of_int_le_iff)
  then have "of_int ?c \<le> (2::real) ^ nat ?b" by simp
  moreover have "1 / x \<le> of_int ?c" by linarith
  ultimately have "1 / x \<le> (2::real) ^ nat ?b" by linarith
  then have "1 \<le> (2::real) ^ nat ?b * x"
    using assms by (simp add: field_simps)
  then have "1 / (2::real) ^ nat ?b \<le> x"
    by (simp add: field_simps)
  then have 1: "2 powi (- ?b) \<le> x"
    using b by (simp add: power_int_minus power_int_nonneg_exp inverse_eq_divide)
  have "(2::real) ^ nat (?b - 1) = of_int (2 ^ nat (?b - 1))" by simp
  also have "\<dots> \<le> of_int (?c - 1)" using lo by (simp only: of_int_le_iff)
  also have "\<dots> < 1 / x" by linarith
  finally have "(2::real) ^ nat (?b - 1) * x < 1"
    using assms by (simp add: field_simps)
  then have "x < 1 / (2::real) ^ nat (?b - 1)"
    by (simp add: field_simps)
  moreover have "2 powi (- ?b + 1) = 1 / (2::real) ^ nat (?b - 1)"
  proof -
    have "- ?b + 1 = - (?b - 1)" by simp
    then have "2 powi (- ?b + 1) = inverse ((2::real) powi (?b - 1))"
      by (simp only: power_int_minus)
    then show ?thesis
      using b by (simp add: power_int_nonneg_exp inverse_eq_divide)
  qed
  ultimately have 2: "x < 2 powi (- ?b + 1)" by simp
  from 1 2 show ?thesis
    by (simp add: e)
qed

lemma binary_exponent_mono:
  assumes "0 < x" and "x \<le> y"
  shows "binary_exponent x \<le> binary_exponent y"
proof (rule ccontr)
  assume "\<not> binary_exponent x \<le> binary_exponent y"
  then have "binary_exponent y + 1 \<le> binary_exponent x" by simp
  then have "(2::real) powi (binary_exponent y + 1) \<le> 2 powi binary_exponent x"
    by (intro power_int_increasing) simp_all
  moreover have "y < 2 powi (binary_exponent y + 1)"
    using binary_exponent_bounds [of y] assms by simp
  moreover have "2 powi binary_exponent x \<le> x"
    using binary_exponent_bounds [of x] assms by simp
  ultimately show False
    using assms by linarith
qed

text \<open>
  Rounding stays within the binade of its argument, hence is monotone on the
  non-negative reals.
\<close>

lemma round_double_pos:
  assumes "0 < x"
  shows "round_double x = of_int (round_half_even (x / 2 powi (binary_exponent x - 52))) *
           2 powi (binary_exponent x - 52)"
  using assms by (simp add: round_double_def Let_def)

lemma round_double_binade:
  assumes "0 < x"
  shows "2 powi binary_exponent x \<le> round_double x \<and>
         round_double x \<le> 2 powi (binary_exponent x + 1)"
proof -
  let ?e = "binary_exponent x"
  let ?u = "(2::real) powi (?e - 52)"
  have u: "0 < ?u" by simp
  have lo_eq: "(2::real) powi ?e = of_int (2 ^ 52) * ?u"
    by (simp add: power_int_diff)
  have hi_eq: "(2::real) powi (?e + 1) = of_int (2 ^ 53) * ?u"
    by (simp add: power_int_diff power_int_add)
  from binary_exponent_bounds [OF assms]
  have "of_int (2 ^ 52) * ?u \<le> x" and "x \<le> of_int (2 ^ 53) * ?u"
    unfolding lo_eq [symmetric] hi_eq [symmetric] by simp_all
  then have q1: "of_int (2 ^ 52) \<le> x / ?u" and q2: "x / ?u \<le> of_int (2 ^ 53)"
    using u by (simp_all add: field_simps)
  have "round_half_even (of_int (2 ^ 52)) \<le> round_half_even (x / ?u)"
    using q1 by (rule round_half_even_mono)
  moreover have "round_half_even (x / ?u) \<le> round_half_even (of_int (2 ^ 53))"
    using q2 by (rule round_half_even_mono)
  ultimately have "2 ^ 52 \<le> round_half_even (x / ?u)" and "round_half_even (x / ?u) \<le> 2 ^ 53"
    unfolding round_half_even_of_int by simp_all
  then have "(of_int (2 ^ 52) :: real) \<le> of_int (round_half_even (x / ?u))"
    and "(of_int (round_half_even (x / ?u)) :: real) \<le> of_int (2 ^ 53)"
    by (simp_all only: of_int_le_iff)
  then have "of_int (2 ^ 52) * ?u \<le> of_int (round_half_even (x / ?u)) * ?u"
    and "of_int (round_half_even (x / ?u)) * ?u \<le> of_int (2 ^ 53) * ?u"
    using u by (simp_all only: mult_le_cancel_right_pos)
  then show ?thesis
    unfolding round_double_pos [OF assms] lo_eq hi_eq by simp
qed

lemma round_double_nonneg: "0 \<le> x \<Longrightarrow> 0 \<le> round_double x"
proof (cases "x = 0")
  case True
  then show ?thesis by (simp add: round_double_def)
next
  case False
  assume "0 \<le> x"
  with False have "0 < x" by simp
  from round_double_binade [OF this] have "2 powi binary_exponent x \<le> round_double x" ..
  moreover have "0 < (2::real) powi binary_exponent x" by simp
  ultimately show ?thesis by linarith
qed

lemma round_double_mono:
  assumes "0 \<le> x" and "x \<le> y"
  shows "round_double x \<le> round_double y"
proof (cases "x = 0")
  case True
  then have "round_double x = 0" by (simp add: round_double_def)
  moreover from assms have "0 \<le> round_double y" by (intro round_double_nonneg) simp
  ultimately show ?thesis by simp
next
  case False
  with assms have x: "0 < x" and y: "0 < y" by simp_all
  from binary_exponent_mono [OF x assms(2)]
  consider "binary_exponent x = binary_exponent y" | "binary_exponent x + 1 \<le> binary_exponent y"
    by linarith
  then show ?thesis
  proof cases
    case 1
    let ?u = "(2::real) powi (binary_exponent y - 52)"
    have u: "0 < ?u" by simp
    from assms(2) u have "x / ?u \<le> y / ?u"
      by (simp add: divide_right_mono)
    then have "round_half_even (x / ?u) \<le> round_half_even (y / ?u)"
      by (rule round_half_even_mono)
    then have "(of_int (round_half_even (x / ?u)) :: real) \<le> of_int (round_half_even (y / ?u))"
      by (simp only: of_int_le_iff)
    then have "of_int (round_half_even (x / ?u)) * ?u \<le> of_int (round_half_even (y / ?u)) * ?u"
      using u by (simp only: mult_le_cancel_right_pos)
    then show ?thesis
      unfolding round_double_pos [OF x] round_double_pos [OF y] 1 .
  next
    case 2
    from round_double_binade [OF x] have "round_double x \<le> 2 powi (binary_exponent x + 1)" ..
    also from 2 have "(2::real) powi (binary_exponent x + 1) \<le> 2 powi binary_exponent y"
      by (intro power_int_increasing) simp_all
    also from round_double_binade [OF y] have "2 powi binary_exponent y \<le> round_double y" ..
    finally show ?thesis .
  qed
qed

text \<open>
  For an entity with \<open>start \<le> end\<close> the window grows with the leniency.
\<close>

lemma window_of_mono:
  assumes "0 \<le> l1" and "l1 \<le> l2" and "start \<le> e"
  shows "window_of l1 start e \<le> window_of l2 start e"
proof -
  have w: "0 \<le> float_of_int (e - start)"
    unfolding float_of_int_def using assms(3) by (intro round_double_nonneg) simp
  then have "l1 * float_of_int (e - start) \<le> l2 * float_of_int (e - start)"
    using assms(2) by (rule mult_right_mono [rotated])
  moreover have "0 \<le> l1 * float_of_int (e - start)"
    using assms(1) w by simp
  ultimately have "float_mul l1 (e - start) \<le> float_mul l2 (e - start)"
    unfolding float_mul_def by (intro round_double_mono)
  then show ?thesis
    unfolding window_of_def by (rule ceiling_mono)
qed

lemma window_of_zero: "window_of 0 start e = 0"
  by (simp add: window_of_def float_mul_def round_double_def)


text \<open>
  Integers of magnitude up to \<open>2^53\<close> are doubles: converting such a width is
  exact, and the window is the ceiling of the once-rounded product.
\<close>

lemma round_double_minus: "round_double (- x) = - round_double x"
proof -
  have "round_half_even (- y) = - round_half_even y" for y
  proof (cases "y = of_int \<lfloor>y\<rfloor>")
    case True
    then obtain n where "y = of_int n" ..
    then show ?thesis
      by (simp add: round_half_even_of_int flip: of_int_minus)
  next
    case False
    then have c: "\<lceil>y\<rceil> = \<lfloor>y\<rfloor> + 1"
      by (simp add: ceiling_altdef)
    have f: "\<lfloor>- y\<rfloor> = - \<lfloor>y\<rfloor> - 1"
      using c by (simp add: ceiling_def)
    show ?thesis
      unfolding round_half_even_def Let_def f by (auto; linarith?)
  qed
  then show ?thesis
    by (simp add: round_double_def Let_def)
qed

lemma round_double_of_int_pos:
  assumes "0 < n" and "n \<le> 2 ^ 53"
  shows "round_double (of_int n) = of_int n"
proof -
  let ?x = "of_int n :: real"
  let ?e = "binary_exponent ?x"
  have x: "0 < ?x" using assms by simp
  from binary_exponent_bounds [OF x] have lo: "2 powi ?e \<le> ?x" and hi: "?x < 2 powi (?e + 1)"
    by simp_all
  have "?x \<le> of_int (2 ^ 53)" using assms(2) by (simp only: of_int_le_iff)
  then have x53: "?x \<le> 2 powi 53" by simp
  have "1 \<le> ?x" using assms(1) by simp
  then have "(2::real) powi 0 < 2 powi (?e + 1)" using hi by simp
  note low = this
  have e0: "0 \<le> ?e"
  proof (rule ccontr)
    assume "\<not> 0 \<le> ?e"
    then have "?e + 1 \<le> 0" by simp
    then have "(2::real) powi (?e + 1) \<le> 2 powi 0"
      by (intro power_int_increasing) simp_all
    with low show False by simp
  qed
  from lo x53 have "(2::real) powi ?e \<le> 2 powi 53" by linarith
  note high = this
  have e53: "?e \<le> 53"
  proof (rule ccontr)
    assume "\<not> ?e \<le> 53"
    then have "53 < ?e" by simp
    then have "(2::real) powi 53 < 2 powi ?e"
      by (rule power_int_strict_increasing) simp
    with high show False by linarith
  qed
  show ?thesis
  proof (cases "?e \<le> 52")
    case True
    let ?k = "nat (52 - ?e)"
    have ulp: "(2::real) powi (?e - 52) = 1 / 2 ^ ?k"
    proof -
      have "?e - 52 = - (52 - ?e)" by simp
      then have "(2::real) powi (?e - 52) = inverse (2 powi (52 - ?e))"
        by (simp only: power_int_minus)
      also have "(2::real) powi (52 - ?e) = 2 ^ ?k"
        using True by (intro power_int_nonneg_exp) simp
      finally show ?thesis by (simp only: inverse_eq_divide)
    qed
    have "?x / (2 powi (?e - 52)) = of_int (n * 2 ^ ?k)"
      by (simp add: ulp)
    then have "round_half_even (?x / (2 powi (?e - 52))) = n * 2 ^ ?k"
      by (simp only: round_half_even_of_int)
    then show ?thesis
      unfolding round_double_pos [OF x] by (simp add: ulp)
  next
    case False
    with e53 have e: "?e = 53" by simp
    with lo x53 have "?x = 2 powi 53" by simp
    then have n: "?x = 2 ^ 53" by simp
    have u: "(2::real) powi (?e - 52) = 2"
      unfolding e by simp
    have "?x / 2 = of_int (2 ^ 52)"
      by (simp add: n)
    then have "?x / (2 powi (?e - 52)) = of_int (2 ^ 52)"
      by (simp only: u)
    then have r: "round_half_even (?x / (2 powi (?e - 52))) = 2 ^ 52"
      by (simp only: round_half_even_of_int)
    have "of_int (2 ^ 52) * 2 = ?x"
      by (simp add: n)
    then have "of_int (2 ^ 52) * 2 powi (?e - 52) = ?x"
      by (simp only: u)
    then show ?thesis
      by (simp only: round_double_pos [OF x] r)
  qed
qed

lemma float_of_int_exact:
  assumes "\<bar>n\<bar> \<le> 2 ^ 53"
  shows "float_of_int n = of_int n"
proof -
  consider "n = 0" | "0 < n" | "n < 0" by linarith
  then show ?thesis
  proof cases
    case 1
    then show ?thesis by (simp add: float_of_int_def round_double_def)
  next
    case 2
    with assms show ?thesis
      by (simp add: float_of_int_def round_double_of_int_pos)
  next
    case 3
    with assms have "round_double (of_int (- n)) = of_int (- n)"
      by (intro round_double_of_int_pos) simp_all
    then show ?thesis
      by (simp add: float_of_int_def round_double_minus)
  qed
qed

lemma window_of_exact:
  "\<bar>e - start\<bar> \<le> 2 ^ 53 \<Longrightarrow>
     window_of l start e = \<lceil>round_double (l * real_of_int (e - start))\<rceil>"
  by (simp add: window_of_def float_mul_def float_of_int_exact)

text \<open>Windows of the concrete entities.\<close>

lemma window_half_10_20: "window_of (1/2) 10 20 = 5"
  by code_simp

lemma window_one_20_10: "window_of 1 20 10 = - 10"
  by code_simp

lemma window_0_07_100_200: "window_of double_0_07 100 200 = 8"
  by code_simp

lemma window_0_1_10_20: "window_of double_0_1 10 20 = 1"
  by code_simp

section \<open>The matching scan\<close>

text \<open>
  The inner loop finds a match exactly when some entity of the other object has
  the same label and lies within the widened range; its text plays no part.
\<close>

lemma match_scan_iff:
  "match_scan (label, start, end, text) w cs \<longleftrightarrow>
     (\<exists>c_start c_end c_text. (label, c_start, c_end, c_text) \<in> set cs \<and>
        start - w \<le> c_start \<and> c_end \<le> end + w)"
proof (induction cs)
  case Nil
  show ?case by simp
next
  case (Cons c cs)
  obtain c_label c_start c_end c_text where c: "c = (c_label, c_start, c_end, c_text)"
    by (cases c) auto
  show ?case
    unfolding c using Cons.IH by (simp split: if_splits) blast
qed

lemma set_match_loop:
  "set (match_loop l xs others acc) =
     set acc \<union> {(label, start, end, text). (label, start, end, text) \<in> set xs \<and>
        match_scan (label, start, end, text) (window_of l start end) others}"
proof (induction l xs others acc rule: match_loop.induct)
  case (1 leniency others matches)
  show ?case by simp
next
  case (2 leniency label start e t rest others matches)
  show ?case
    unfolding match_loop.simps "2.IH" by (auto simp: set_set_add)
qed

lemma distinct_match_loop: "distinct acc \<Longrightarrow> distinct (match_loop l xs others acc)"
  by (induction l xs others acc rule: match_loop.induct) (simp_all add: distinct_set_add)

section \<open>Leniency zero\<close>

text \<open>
  C2. At leniency \<open>0\<close> neither method compares by equality of the four fields.
  \<open>intersection\<close> has no branch for leniency \<open>0\<close>: it runs the containment scan
  with a window of \<open>0\<close>, so the entity \<open>(Drug, 10, 20, x)\<close> is returned although
  the other object holds only \<open>(Drug, 12, 18, y)\<close>, a different tuple.
  \<open>difference\<close> does not return a set at all there: it raises \<open>TypeError\<close>.
\<close>

theorem zero_leniency_not_exact_equality:
  "intersection drug_10_20 drug_12_18 0 = Inr [(''Drug'', 10, 20, ''x'')] \<and>
   (''Drug'', 10, 20, ''x'') \<notin> set (get_entity_annotations drug_12_18) \<and>
   difference drug_10_20 drug_12_18 0 = Inl TypeError"
  by (simp add: intersection_def difference_def drug_10_20_def drug_12_18_def eval_defs
      window_of_zero)

text \<open>
  C4. \<open>difference(left, right, 0)\<close> does not return the set of entities of
  \<open>left\<close> that are absent from \<open>right\<close>: for every pair of objects the call ends
  in \<open>TypeError\<close>, because a list is subtracted from a set.
\<close>

theorem difference_zero_raises: "difference left right 0 = Inl TypeError"
  by (simp add: difference_def set_sub_list_def)

text \<open>
  C5. At leniency \<open>0\<close> the results of \<open>intersection\<close> and \<open>difference\<close> never
  partition the entities of the left object: there is no pair of returned sets
  at all, since \<open>difference\<close> raises.
\<close>

theorem zero_leniency_no_partition:
  "\<not> (\<exists>I D. intersection A B 0 = Inr I \<and> difference A B 0 = Inr D \<and>
        set I \<union> set D = set (get_entity_annotations A) \<and> set I \<inter> set D = {})"
  by (simp add: difference_def set_sub_list_def)

section \<open>The literal example at leniency one half\<close>

text \<open>
  C7. With leniency \<open>0.5\<close>, left entity \<open>(Drug, 10, 20, x)\<close> and right entity
  \<open>(Drug, 6, 24, y)\<close>, the left entity is to stay unmatched and the intersection
  empty. The docstring of \<open>intersection\<close> gives the tolerance as
  \<open>ceil(leniency * len(span)/2)\<close> on either side, here \<open>ceil(0.5 * 10 / 2) = 3\<close>,
  and \<open>10 - 3 \<le> 6\<close> fails. The code widens by \<open>ceil(leniency * (end - start))\<close>
  instead: the window is \<open>5\<close>, both checks \<open>10 - 5 \<le> 6\<close> and \<open>20 + 5 \<ge> 24\<close> hold,
  and the intersection is the set holding \<open>(Drug, 10, 20, x)\<close>.
\<close>

theorem example_half_matched:
  "window_of (1/2) 10 20 = 5 \<and> (10 - 5 \<le> (6::int)) \<and> (20 + 5 \<ge> (24::int)) \<and>
   \<lceil>(1/2::real) * 10 / 2\<rceil> = (3::int) \<and> (6::int) < 10 - 3 \<and>
   intersection drug_10_20 drug_6_24 (1/2) = Inr [(''Drug'', 10, 20, ''x'')]"
proof -
  have "\<lceil>(5/2::real)\<rceil> = (3::int)"
    by (simp add: ceiling_eq_iff)
  then show ?thesis
    by (simp add: intersection_def drug_10_20_def drug_6_24_def eval_defs window_half_10_20)
qed

section \<open>Ambiguity\<close>

text \<open>
  C3. \<open>compute_ambiguity\<close> does not keep every overlapping entity with another
  label: each hit assigns a fresh empty list to the key before appending, so
  only the last hit is left. For \<open>(Drug, 10, 20, warfarin)\<close> against
  \<open>(Dose, 12, 18, 5mg)\<close> and \<open>(Freq, 11, 13, bid)\<close>, both of which overlap it, the
  value holds the second one alone.
\<close>

theorem compute_ambiguity_keeps_last_only:
  "compute_ambiguity warfarin dose_freq =
     [((''Drug'', 10, 20, ''warfarin''), [(''Freq'', 11, 13, ''bid'')])]"
  by (simp add: compute_ambiguity_def warfarin_def dose_freq_def eval_defs)

section \<open>The range check of the leniency\<close>

text \<open>
  C9. A leniency below \<open>0\<close> or above \<open>1\<close> makes both \<open>difference\<close> and
  \<open>intersection\<close> raise \<open>ValueError\<close> (no clamping, no result); a leniency
  within \<open>[0, 1]\<close> never raises that error.
\<close>

theorem leniency_range_error:
  "(leniency < 0 \<or> 1 < leniency \<longrightarrow>
      difference A B leniency = Inl ValueError \<and> intersection A B leniency = Inl ValueError) \<and>
   (0 \<le> leniency \<and> leniency \<le> 1 \<longrightarrow>
      difference A B leniency \<noteq> Inl ValueError \<and> intersection A B leniency \<noteq> Inl ValueError)"
  by (auto simp: difference_def intersection_def set_sub_list_def)

theorem leniency_range_error_witness:
  "((2::real) < 0 \<or> 1 < (2::real)) \<and>
   difference drug_10_20 drug_6_24 2 = Inl ValueError \<and>
   intersection drug_10_20 drug_6_24 2 = Inl ValueError \<and>
   (0 \<le> (1/2::real) \<and> (1/2::real) \<le> 1) \<and>
   difference drug_10_20 drug_6_24 (1/2) \<noteq> Inl ValueError \<and>
   intersection drug_10_20 drug_6_24 (1/2) \<noteq> Inl ValueError"
  using leniency_range_error [of 2 drug_10_20 drug_6_24]
    leniency_range_error [of "1/2" drug_10_20 drug_6_24]
  by simp

section \<open>Matching at a positive leniency\<close>

lemma intersection_Inr:
  "0 \<le> leniency \<Longrightarrow> leniency \<le> 1 \<Longrightarrow>
   intersection A B leniency =
     Inr (match_loop leniency (get_entity_annotations A) (get_entity_annotations B) [])"
  by (simp add: intersection_def)

lemma difference_Inr:
  "0 < leniency \<Longrightarrow> leniency \<le> 1 \<Longrightarrow>
   difference A B leniency =
     Inr (set_minus (py_set (get_entity_annotations A))
            (match_loop leniency (get_entity_annotations A) (get_entity_annotations B) []))"
  by (simp add: difference_def)

lemma match_scan_window:
  assumes "\<bar>e - start\<bar> \<le> 2 ^ 53"
  shows "match_scan (label, start, e, t) (window_of l start e) cs \<longleftrightarrow>
     (\<exists>c_start c_end c_text. (label, c_start, c_end, c_text) \<in> set cs \<and>
        start - \<lceil>round_double (l * real_of_int (e - start))\<rceil> \<le> c_start \<and>
        e + \<lceil>round_double (l * real_of_int (e - start))\<rceil> \<ge> c_end)"
  unfolding match_scan_iff window_of_exact [OF assms] by auto

lemma set_match_loop_spec:
  assumes "\<forall>(label, start, end, text) \<in> set xs. \<bar>end - start\<bar> \<le> 2 ^ 53"
  shows "set (match_loop l xs others []) =
     {(label, start, end, text). (label, start, end, text) \<in> set xs \<and>
        (\<exists>c_start c_end c_text. (label, c_start, c_end, c_text) \<in> set others \<and>
           start - \<lceil>round_double (l * real_of_int (end - start))\<rceil> \<le> c_start \<and>
           end + \<lceil>round_double (l * real_of_int (end - start))\<rceil> \<ge> c_end)}"
proof (rule set_eqI)
  fix a :: span
  obtain label start e t where a: "a = (label, start, e, t)"
    by (cases a) auto
  show "a \<in> set (match_loop l xs others []) \<longleftrightarrow>
     a \<in> {(label, start, end, text). (label, start, end, text) \<in> set xs \<and>
        (\<exists>c_start c_end c_text. (label, c_start, c_end, c_text) \<in> set others \<and>
           start - \<lceil>round_double (l * real_of_int (end - start))\<rceil> \<le> c_start \<and>
           end + \<lceil>round_double (l * real_of_int (end - start))\<rceil> \<ge> c_end)}"
  proof (cases "(label, start, e, t) \<in> set xs")
    case True
    with assms have "\<bar>e - start\<bar> \<le> 2 ^ 53"
      by fastforce
    from match_scan_window [OF this] True show ?thesis
      unfolding a set_match_loop by simp
  next
    case False
    then show ?thesis
      unfolding a set_match_loop by simp
  qed
qed

text \<open>
  C1. For a leniency \<open>l\<close> with \<open>0 < l \<le> 1\<close>, \<open>intersection\<close> returns exactly the
  left entities \<open>a\<close> for which some right entity \<open>b\<close> has \<open>a.label = b.label\<close>,
  \<open>a.start - window \<le> b.start\<close> and \<open>a.end + window \<ge> b.end\<close>, where
  \<open>window = ceil(l * (a.end - a.start))\<close> is computed from the left entity alone,
  the product being the double-precision one; \<open>difference\<close> returns exactly the
  left entities for which no such \<open>b\<close> exists. The test is directional and
  mentions the text of neither entity. The widths are taken up to \<open>2^53\<close> in
  magnitude, where they are doubles themselves.
\<close>

theorem matcher_characterisation:
  assumes "0 < leniency" and "leniency \<le> 1"
    and widths: "\<forall>(label, start, end, text) \<in> set (get_entity_annotations A).
           \<bar>end - start\<bar> \<le> 2 ^ 53"
  shows "\<exists>I D. intersection A B leniency = Inr I \<and> difference A B leniency = Inr D \<and>
    set I = {(label, start, end, text).
       (label, start, end, text) \<in> set (get_entity_annotations A) \<and>
       (\<exists>c_start c_end c_text.
          (label, c_start, c_end, c_text) \<in> set (get_entity_annotations B) \<and>
          start - \<lceil>round_double (leniency * real_of_int (end - start))\<rceil> \<le> c_start \<and>
          end + \<lceil>round_double (leniency * real_of_int (end - start))\<rceil> \<ge> c_end)} \<and>
    set D = {(label, start, end, text).
       (label, start, end, text) \<in> set (get_entity_annotations A) \<and>
       \<not> (\<exists>c_start c_end c_text.
          (label, c_start, c_end, c_text) \<in> set (get_entity_annotations B) \<and>
          start - \<lceil>round_double (leniency * real_of_int (end - start))\<rceil> \<le> c_start \<and>
          end + \<lceil>round_double (leniency * real_of_int (end - start))\<rceil> \<ge> c_end)}"
proof -
  let ?I = "match_loop leniency (get_entity_annotations A) (get_entity_annotations B) []"
  let ?D = "set_minus (py_set (get_entity_annotations A)) ?I"
  have i: "intersection A B leniency = Inr ?I"
    using assms(1,2) by (simp add: intersection_Inr)
  have d: "difference A B leniency = Inr ?D"
    using assms(1,2) by (simp add: difference_Inr)
  have si: "set ?I = {(label, start, end, text).
       (label, start, end, text) \<in> set (get_entity_annotations A) \<and>
       (\<exists>c_start c_end c_text.
          (label, c_start, c_end, c_text) \<in> set (get_entity_annotations B) \<and>
          start - \<lceil>round_double (leniency * real_of_int (end - start))\<rceil> \<le> c_start \<and>
          end + \<lceil>round_double (leniency * real_of_int (end - start))\<rceil> \<ge> c_end)}"
    using widths by (rule set_match_loop_spec)
  have sd: "set ?D = set (get_entity_annotations A) - set ?I"
    by (simp add: set_set_minus set_py_set)
  have sd': "set ?D = {(label, start, end, text).
       (label, start, end, text) \<in> set (get_entity_annotations A) \<and>
       \<not> (\<exists>c_start c_end c_text.
          (label, c_start, c_end, c_text) \<in> set (get_entity_annotations B) \<and>
          start - \<lceil>round_double (leniency * real_of_int (end - start))\<rceil> \<le> c_start \<and>
          end + \<lceil>round_double (leniency * real_of_int (end - start))\<rceil> \<ge> c_end)}"
    unfolding sd si by auto
  show ?thesis
    using i d si sd' by blast
qed

theorem matcher_characterisation_witness:
  "0 < double_0_07 \<and> double_0_07 \<le> 1 \<and>
   get_entity_annotations drug_100_200 = [(''Drug'', 100, 200, ''x'')] \<and>
   \<bar>200 - 100 :: int\<bar> \<le> 2 ^ 53 \<and>
   (\<exists>I D. intersection drug_100_200 drug_92_200 double_0_07 = Inr I \<and>
      difference drug_100_200 drug_92_200 double_0_07 = Inr D \<and>
      set I = {(label, start, end, text).
         (label, start, end, text) \<in> set (get_entity_annotations drug_100_200) \<and>
         (\<exists>c_start c_end c_text.
            (label, c_start, c_end, c_text) \<in> set (get_entity_annotations drug_92_200) \<and>
            start - \<lceil>round_double (double_0_07 * real_of_int (end - start))\<rceil> \<le> c_start \<and>
            end + \<lceil>round_double (double_0_07 * real_of_int (end - start))\<rceil> \<ge> c_end)} \<and>
      set D = {(label, start, end, text).
         (label, start, end, text) \<in> set (get_entity_annotations drug_100_200) \<and>
         \<not> (\<exists>c_start c_end c_text.
            (label, c_start, c_end, c_text) \<in> set (get_entity_annotations drug_92_200) \<and>
            start - \<lceil>round_double (double_0_07 * real_of_int (end - start))\<rceil> \<le> c_start \<and>
            end + \<lceil>round_double (double_0_07 * real_of_int (end - start))\<rceil> \<ge> c_end)})"
proof -
  have h1: "0 < double_0_07" by (simp add: double_0_07_def)
  have h2: "double_0_07 \<le> 1" by (simp add: double_0_07_def)
  have h3: "get_entity_annotations drug_100_200 = [(''Drug'', 100, 200, ''x'')]"
    by (simp add: drug_100_200_def get_entity_annotations_def dict_values_def)
  have h4: "\<forall>(label, start, end, text) \<in> set (get_entity_annotations drug_100_200).
      \<bar>end - start\<bar> \<le> 2 ^ 53"
    by (simp add: h3)
  have h5: "\<bar>200 - 100 :: int\<bar> \<le> 2 ^ 53" by simp
  show ?thesis
    using h1 h2 h3 h5 matcher_characterisation [OF h1 h2 h4, of drug_92_200] by blast
qed

text \<open>
  The rounding of the product decides these two cases. The double \<open>0.07\<close> times
  \<open>100\<close> rounds to a double just above \<open>7\<close>, so the window is \<open>8\<close> and the entity
  \<open>(Drug, 100, 200)\<close> matches \<open>(Drug, 92, 200)\<close>. The double \<open>0.1\<close> lies just above
  one tenth, but its product with \<open>10\<close> rounds to \<open>1\<close>, so the window is \<open>1\<close> and
  \<open>(Drug, 10, 20)\<close> does not match \<open>(Drug, 8, 20)\<close>.
\<close>

lemma rounded_window_examples:
  "intersection drug_100_200 drug_92_200 double_0_07 = Inr [(''Drug'', 100, 200, ''x'')] \<and>
   difference drug_100_200 drug_92_200 double_0_07 = Inr [] \<and>
   intersection drug_10_20 drug_8_20 double_0_1 = Inr [] \<and>
   difference drug_10_20 drug_8_20 double_0_1 = Inr [(''Drug'', 10, 20, ''x'')]"
proof -
  have "0 < double_0_07" "double_0_07 \<le> 1" "0 < double_0_1" "double_0_1 \<le> 1"
    by (simp_all add: double_0_07_def double_0_1_def)
  then show ?thesis
    by (simp add: intersection_Inr difference_Inr drug_100_200_def drug_92_200_def
        drug_10_20_def drug_8_20_def eval_defs window_0_07_100_200 window_0_1_10_20)
qed

section \<open>Monotonicity in the leniency\<close>

lemma match_scan_mono:
  assumes "w1 \<le> w2" and "match_scan a w1 cs"
  shows "match_scan a w2 cs"
proof -
  obtain label start e t where a: "a = (label, start, e, t)"
    by (cases a) auto
  show ?thesis
    using assms unfolding a match_scan_iff by fastforce
qed

text \<open>
  C6. For entity sets whose left entities have \<open>start \<le> end\<close> (the invariant of a
  span is \<open>end > start\<close>) and leniencies \<open>l1 < l2\<close> within \<open>[0, 1]\<close>, every entity
  of \<open>intersection(A, B, l1)\<close> is in \<open>intersection(A, B, l2)\<close>.
\<close>

theorem intersection_leniency_mono:
  assumes "0 \<le> l1" and "l1 < l2" and "l2 \<le> 1"
    and ordered: "\<forall>(label, start, end, text) \<in> set (get_entity_annotations A). start \<le> end"
  shows "\<exists>I1 I2. intersection A B l1 = Inr I1 \<and> intersection A B l2 = Inr I2 \<and>
           set I1 \<subseteq> set I2"
proof -
  let ?I1 = "match_loop l1 (get_entity_annotations A) (get_entity_annotations B) []"
  let ?I2 = "match_loop l2 (get_entity_annotations A) (get_entity_annotations B) []"
  have i1: "intersection A B l1 = Inr ?I1"
    using assms by (simp add: intersection_Inr)
  have i2: "intersection A B l2 = Inr ?I2"
    using assms by (simp add: intersection_Inr)
  have "set ?I1 \<subseteq> set ?I2"
  proof
    fix a
    assume a_in: "a \<in> set ?I1"
    obtain label start e t where a: "a = (label, start, e, t)"
      by (cases a) auto
    from a_in have mem: "(label, start, e, t) \<in> set (get_entity_annotations A)"
      and m1: "match_scan (label, start, e, t) (window_of l1 start e) (get_entity_annotations B)"
      unfolding a set_match_loop by simp_all
    from ordered mem have "start \<le> e"
      by fastforce
    then have "window_of l1 start e \<le> window_of l2 start e"
      using \<open>0 \<le> l1\<close> \<open>l1 < l2\<close> by (simp add: window_of_mono)
    then have "match_scan (label, start, e, t) (window_of l2 start e) (get_entity_annotations B)"
      using m1 by (rule match_scan_mono)
    then show "a \<in> set ?I2"
      unfolding a set_match_loop using mem by simp
  qed
  then show ?thesis
    using i1 i2 by blast
qed

theorem intersection_leniency_mono_witness:
  "(0::real) \<le> 0 \<and> (0::real) < 1/2 \<and> (1/2::real) \<le> 1 \<and>
   get_entity_annotations drug_10_20 = [(''Drug'', 10, 20, ''x'')] \<and> (10::int) \<le> 20 \<and>
   (\<exists>I1 I2. intersection drug_10_20 drug_6_24 0 = Inr I1 \<and>
      intersection drug_10_20 drug_6_24 (1/2) = Inr I2 \<and> set I1 \<subseteq> set I2)"
proof -
  have h1: "(0::real) \<le> 0" by simp
  have h2: "(0::real) < 1/2" by simp
  have h3: "(1/2::real) \<le> 1" by simp
  have h4: "\<forall>(label, start, end, text) \<in> set (get_entity_annotations drug_10_20). start \<le> end"
    by (simp add: drug_10_20_def get_entity_annotations_def dict_values_def)
  have h5: "get_entity_annotations drug_10_20 = [(''Drug'', 10, 20, ''x'')]"
    by (simp add: drug_10_20_def get_entity_annotations_def dict_values_def)
  show ?thesis
    using h1 h2 h3 h5 intersection_leniency_mono [OF h1 h2 h3 h4, of drug_6_24] by simp
qed

text \<open>
  The order of the offsets matters: an entity with \<open>end < start\<close>, which
  \<open>add_entity\<close> does not reject, has a negative window that shrinks as the
  leniency grows.
\<close>

lemma intersection_mono_needs_ordered_offsets:
  "intersection reversed_20_10 reversed_20_10 0 = Inr [(''Drug'', 20, 10, ''x'')] \<and>
   intersection reversed_20_10 reversed_20_10 1 = Inr []"
  by (simp add: intersection_def reversed_20_10_def eval_defs window_of_zero window_one_20_10)

section \<open>Identifiers assigned by \<open>add_entity\<close>\<close>

lemma dict_get_update:
  "dict_get (dict_update k v d) k' = (if k' = k then Some v else dict_get d k')"
  by (induction d) (auto simp: dict_get_def)

lemma dict_update_fresh:
  "k \<notin> set (dict_keys d) \<Longrightarrow> dict_update k v d = d @ [(k, v)]"
  by (induction d) (auto simp: dict_keys_def)

lemma dict_update_present:
  "k \<in> set (dict_keys d) \<Longrightarrow>
     length (dict_update k v d) = length d \<and> dict_keys (dict_update k v d) = dict_keys d"
proof (induction d)
  case Nil
  then show ?case by (simp add: dict_keys_def)
next
  case (Cons p d)
  obtain k' v' where p: "p = (k', v')"
    by (cases p) auto
  show ?case
  proof (cases "k' = k")
    case True
    then show ?thesis by (simp add: p dict_keys_def)
  next
    case False
    with Cons.prems have "k \<in> set (dict_keys d)"
      by (simp add: p dict_keys_def)
    then have "length (dict_update k v d) = length d \<and> dict_keys (dict_update k v d) = dict_keys d"
      by (rule Cons.IH)
    with False show ?thesis
      by (simp add: p dict_keys_def)
  qed
qed

text \<open>Reading the digits back gives the number, so the format is injective.\<close>

lemma digit_char_value:
  "d < 10 \<Longrightarrow> (of_char (digit_char d) :: nat) - 48 = d"
  by (simp add: digit_char_def)

lemma format_i_value:
  "foldl (\<lambda>acc c. 10 * acc + ((of_char c :: nat) - 48)) 0 (format_i n) = n"
proof (induction n rule: format_i.induct)
  case (1 n)
  show ?case
  proof (cases "n < 10")
    case True
    then show ?thesis
      by (subst format_i.simps) (simp add: digit_char_value)
  next
    case False
    have "n mod 10 < 10" by simp
    then have "(of_char (digit_char (n mod 10)) :: nat) - 48 = n mod 10"
      by (rule digit_char_value)
    with False "1.IH" show ?thesis
      by (subst format_i.simps) simp
  qed
qed

lemma format_i_inject: "format_i m = format_i n \<Longrightarrow> m = n"
  by (metis format_i_value)

text \<open>
  C10. \<open>add_entity\<close> stores the new entity under the identifier \<open>T\<close> followed
  by the number of entities plus one. When the identifiers present are exactly
  \<open>T1 .. Tn\<close>, that identifier is fresh: the entity is appended and the count
  grows by one. When the identifier is already a key (as for the set holding
  \<open>T2\<close> alone, evaluated below), the entry of that key is overwritten and neither
  the count nor the keys change.
\<close>

theorem add_entity_identifier:
  "dict_get (entities (add_entity a label start end text))
       (''T'' @ format_i (length (entities a) + 1)) = Some (label, start, end, text) \<and>
   (set (dict_keys (entities a)) = (\<lambda>i. ''T'' @ format_i i) ` {1..length (entities a)} \<longrightarrow>
      ''T'' @ format_i (length (entities a) + 1) \<notin> set (dict_keys (entities a)) \<and>
      entities (add_entity a label start end text) =
        entities a @ [(''T'' @ format_i (length (entities a) + 1), (label, start, end, text))] \<and>
      length (entities (add_entity a label start end text)) = length (entities a) + 1) \<and>
   (''T'' @ format_i (length (entities a) + 1) \<in> set (dict_keys (entities a)) \<longrightarrow>
      length (entities (add_entity a label start end text)) = length (entities a) \<and>
      dict_keys (entities (add_entity a label start end text)) = dict_keys (entities a))"
proof -
  let ?k = "''T'' @ format_i (length (entities a) + 1)"
  let ?v = "(label, start, end, text)"
  have ent: "entities (add_entity a label start end text) = dict_update ?k ?v (entities a)"
    by (simp add: add_entity_def)
  have stored: "dict_get (dict_update ?k ?v (entities a)) ?k = Some ?v"
    by (simp add: dict_get_update)
  have fresh: "?k \<notin> set (dict_keys (entities a))"
    if keys: "set (dict_keys (entities a)) = (\<lambda>i. ''T'' @ format_i i) ` {1..length (entities a)}"
  proof
    assume "?k \<in> set (dict_keys (entities a))"
    with keys obtain i where i: "i \<in> {1..length (entities a)}" and eq: "?k = ''T'' @ format_i i"
      by auto
    from eq have "format_i (length (entities a) + 1) = format_i i"
      by simp
    then have "length (entities a) + 1 = i"
      by (rule format_i_inject)
    with i show False
      by simp
  qed
  show ?thesis
    unfolding ent using stored fresh
    by (auto simp: dict_update_fresh dict_update_present)
qed

theorem add_entity_identifier_witness:
  "set (dict_keys (entities drug_10_20)) = (\<lambda>i. ''T'' @ format_i i) ` {1..length (entities drug_10_20)} \<and>
   entities (add_entity drug_10_20 ''Dose'' 5 8 ''5mg'') =
     [(''T1'', (''Drug'', 10, 20, ''x'')), (''T2'', (''Dose'', 5, 8, ''5mg''))] \<and>
   ''T'' @ format_i (length (entities gap_ids) + 1) \<in> set (dict_keys (entities gap_ids)) \<and>
   length (entities (add_entity gap_ids ''Dose'' 5 8 ''5mg'')) = length (entities gap_ids) \<and>
   dict_get (entities (add_entity gap_ids ''Dose'' 5 8 ''5mg'')) ''T2'' = Some (''Dose'', 5, 8, ''5mg'')"
proof -
  have f1: "format_i (Suc 0) = ''1''" by code_simp
  have f2: "format_i (Suc (Suc 0)) = ''2''" by code_simp
  have h1: "set (dict_keys (entities drug_10_20)) =
      (\<lambda>i. ''T'' @ format_i i) ` {1..length (entities drug_10_20)}"
    by (simp add: drug_10_20_def dict_keys_def f1)
  have h2: "''T'' @ format_i (length (entities gap_ids) + 1) \<in> set (dict_keys (entities gap_ids))"
    by (simp add: gap_ids_def dict_keys_def f2)
  show ?thesis
    using h1 h2 add_entity_identifier [of drug_10_20 "''Dose''" 5 8 "''5mg''"]
      add_entity_identifier [of gap_ids "''Dose''" 5 8 "''5mg''"]
    by (simp add: drug_10_20_def gap_ids_def f1 f2)
qed

section \<open>The diagonal of the confusion matrix\<close>

text \<open>
  The encoding maps a label to a position of the vocabulary that holds it, and
  knows every label of the vocabulary.
\<close>

lemma encoding_fold_Some:
  "dict_get (fold (\<lambda>(i, entity) d. dict_update entity i d) (enumerate k xs) d) e = Some i \<Longrightarrow>
     dict_get d e = Some i \<or> (k \<le> i \<and> i < k + length xs \<and> xs ! (i - k) = e)"
proof (induction xs arbitrary: k d)
  case Nil
  then show ?case by simp
next
  case (Cons x xs)
  from Cons.prems
  have "dict_get (fold (\<lambda>(i, entity) d. dict_update entity i d) (enumerate (Suc k) xs)
          (dict_update x k d)) e = Some i"
    by simp
  then have "dict_get (dict_update x k d) e = Some i \<or>
      (Suc k \<le> i \<and> i < Suc k + length xs \<and> xs ! (i - Suc k) = e)"
    by (rule Cons.IH)
  then show ?case
  proof
    assume "dict_get (dict_update x k d) e = Some i"
    then show ?thesis
      by (auto simp: dict_get_update split: if_splits)
  next
    assume r: "Suc k \<le> i \<and> i < Suc k + length xs \<and> xs ! (i - Suc k) = e"
    then have "i - k = Suc (i - Suc k)"
      by arith
    with r show ?thesis
      by simp
  qed
qed

lemma encoding_fold_dom:
  "e \<in> set xs \<or> dict_get d e \<noteq> None \<Longrightarrow>
     dict_get (fold (\<lambda>(i, entity) d. dict_update entity i d) (enumerate k xs) d) e \<noteq> None"
proof (induction xs arbitrary: k d)
  case Nil
  then show ?case by simp
next
  case (Cons x xs)
  from Cons.prems have "e \<in> set xs \<or> dict_get (dict_update x k d) e \<noteq> None"
    by (auto simp: dict_get_update)
  then have "dict_get (fold (\<lambda>(i, entity) d. dict_update entity i d) (enumerate (Suc k) xs)
          (dict_update x k d)) e \<noteq> None"
    by (rule Cons.IH)
  then show ?case by simp
qed

lemma entity_encoding_Some:
  assumes "dict_get (entity_encoding ents) e = Some i"
  shows "i < length ents \<and> ents ! i = e"
  using encoding_fold_Some [of 0 ents "[]" e i] assms
  by (simp add: entity_encoding_def dict_get_def)

lemma entity_encoding_dom:
  assumes "e \<in> set ents"
  shows "\<exists>i. dict_get (entity_encoding ents) e = Some i"
  using encoding_fold_dom [of e ents "[]" 0] assms
  by (auto simp: entity_encoding_def)

lemma injective_below_encoding: "injective_below (length ents) (entity_encoding ents)"
  unfolding injective_below_def using entity_encoding_Some by blast

text \<open>Cells of a square matrix under the update of one cell.\<close>

lemma square_zero_matrix: "square n (zero_matrix n)"
  by (simp add: square_def zero_matrix_def)

lemma zero_matrix_nth: "i < n \<Longrightarrow> j < n \<Longrightarrow> zero_matrix n ! i ! j = 0"
  by (simp add: zero_matrix_def)

lemma square_bump:
  "square n m \<Longrightarrow> square n (m[i := (m ! i)[j := v]])"
  by (cases "i < length m") (auto simp: square_def nth_list_update)

lemma bump_nth:
  "square n m \<Longrightarrow> i < n \<Longrightarrow> j < n \<Longrightarrow> a < n \<Longrightarrow> b < n \<Longrightarrow>
     m[i := (m ! i)[j := v]] ! a ! b = (if a = i \<and> b = j then v else m ! a ! b)"
  by (auto simp: square_def nth_list_update)

lemma increment_Inr:
  assumes "dict_get enc r = Some i" and "dict_get enc c = Some j"
  shows "increment enc r c m = Inr (m[i := (m ! i)[j := m ! i ! j + 1]])"
  using assms by (simp add: increment_def)

text \<open>An increment off the diagonal leaves the diagonal as it is.\<close>

lemma offdiag_inner_diag:
  assumes "injective_below n enc" and "square n m" and "dict_get enc g = Some i"
    and "\<forall>s \<in> set amb. fst s \<noteq> g \<and> dict_get enc (fst s) \<noteq> None"
  shows "\<exists>m'. offdiag_inner enc g amb m = Inr m' \<and> square n m' \<and>
           (\<forall>a<n. m' ! a ! a = m ! a ! a)"
  using assms(2,4)
proof (induction amb arbitrary: m)
  case Nil
  then show ?case by simp
next
  case (Cons s amb)
  obtain l c_start c_end c_text where s: "s = (l, c_start, c_end, c_text)"
    by (cases s) auto
  from Cons.prems(2) obtain j where j: "dict_get enc l = Some j" and ne: "l \<noteq> g"
    by (auto simp: s)
  from assms(1,3) j ne have ij: "i < n" "j < n" "i \<noteq> j"
    unfolding injective_below_def by blast+
  let ?m1 = "m[i := (m ! i)[j := m ! i ! j + 1]]"
  have inc: "increment enc g l m = Inr ?m1"
    using assms(3) j by (rule increment_Inr)
  have sq1: "square n ?m1"
    using Cons.prems(1) by (rule square_bump)
  have d1: "\<forall>a<n. ?m1 ! a ! a = m ! a ! a"
    using Cons.prems(1) ij by (simp add: bump_nth)
  from Cons.prems(2) have rest: "\<forall>s \<in> set amb. fst s \<noteq> g \<and> dict_get enc (fst s) \<noteq> None"
    by simp
  from Cons.IH [OF sq1 rest] obtain m' where
    "offdiag_inner enc g amb ?m1 = Inr m'" "square n m'" "\<forall>a<n. m' ! a ! a = ?m1 ! a ! a"
    by blast
  with d1 inc show ?case
    by (simp add: s)
qed

lemma offdiag_loop_diag:
  assumes "injective_below n enc" and "square n m"
    and "\<forall>(k, amb) \<in> set d. dict_get enc (fst k) \<noteq> None \<and>
           (\<forall>s \<in> set amb. fst s \<noteq> fst k \<and> dict_get enc (fst s) \<noteq> None)"
  shows "\<exists>m'. offdiag_loop enc d m = Inr m' \<and> square n m' \<and>
           (\<forall>a<n. m' ! a ! a = m ! a ! a)"
  using assms(2,3)
proof (induction d arbitrary: m)
  case Nil
  then show ?case by simp
next
  case (Cons p d)
  obtain g start e t amb where p: "p = ((g, start, e, t), amb)"
    by (cases p) auto
  from Cons.prems(2) obtain i where i: "dict_get enc g = Some i"
    and amb: "\<forall>s \<in> set amb. fst s \<noteq> g \<and> dict_get enc (fst s) \<noteq> None"
    by (auto simp: p)
  from offdiag_inner_diag [OF assms(1) Cons.prems(1) i amb] obtain m1 where
    m1: "offdiag_inner enc g amb m = Inr m1" "square n m1" "\<forall>a<n. m1 ! a ! a = m ! a ! a"
    by blast
  from Cons.prems(2) have rest: "\<forall>(k, amb) \<in> set d. dict_get enc (fst k) \<noteq> None \<and>
           (\<forall>s \<in> set amb. fst s \<noteq> fst k \<and> dict_get enc (fst s) \<noteq> None)"
    by simp
  from Cons.IH [OF m1(2) rest] obtain m' where
    "offdiag_loop enc d m1 = Inr m'" "square n m'" "\<forall>a<n. m' ! a ! a = m1 ! a ! a"
    by blast
  with m1 show ?case
    by (simp add: p)
qed

text \<open>Each matching entity adds one to the diagonal cell of its own label.\<close>

lemma diag_loop_diag:
  assumes "injective_below n enc" and "square n m"
    and "\<forall>s \<in> set S. dict_get enc (fst s) \<noteq> None"
  shows "\<exists>m'. diag_loop enc S m = Inr m' \<and> square n m' \<and>
           (\<forall>a<n. m' ! a ! a =
              m ! a ! a + int (length (filter (\<lambda>s. dict_get enc (fst s) = Some a) S)))"
  using assms(2,3)
proof (induction S arbitrary: m)
  case Nil
  then show ?case by simp
next
  case (Cons s S)
  obtain l start e t where s: "s = (l, start, e, t)"
    by (cases s) auto
  from Cons.prems(2) obtain i where i: "dict_get enc l = Some i"
    by (auto simp: s)
  from assms(1) i have "i < n"
    unfolding injective_below_def by blast
  let ?m1 = "m[i := (m ! i)[i := m ! i ! i + 1]]"
  have inc: "increment enc l l m = Inr ?m1"
    using i i by (rule increment_Inr)
  have sq1: "square n ?m1"
    using Cons.prems(1) by (rule square_bump)
  have d1: "\<forall>a<n. ?m1 ! a ! a = m ! a ! a + (if a = i then 1 else 0)"
    using Cons.prems(1) \<open>i < n\<close> by (simp add: bump_nth)
  from Cons.prems(2) have rest: "\<forall>s \<in> set S. dict_get enc (fst s) \<noteq> None"
    by simp
  from Cons.IH [OF sq1 rest] obtain m' where m': "diag_loop enc S ?m1 = Inr m'" "square n m'"
    "\<forall>a<n. m' ! a ! a =
        ?m1 ! a ! a + int (length (filter (\<lambda>s. dict_get enc (fst s) = Some a) S))"
    by blast
  have "\<forall>a<n. m' ! a ! a =
        m ! a ! a + int (length (filter (\<lambda>s. dict_get enc (fst s) = Some a) (s # S)))"
    using m'(3) d1 i by (auto simp: s)
  with m'(1,2) inc show ?case
    by (simp add: s)
qed


text \<open>
  Every key of the ambiguity dictionary is an entity of the left object, and
  every entity listed under it is one of the right object with another label.
\<close>

lemma set_dict_update: "set (dict_update k v d) \<subseteq> insert (k, v) (set d)"
  by (induction d) (auto split: if_splits)

lemma dict_append_after_reset:
  "dict_append k c (dict_update k [] d) = dict_update k [c] (dict_update k [] d)"
  by (simp add: dict_append_def dict_get_update)

lemma well_labelled_hit:
  assumes "well_labelled K V d" and "k \<in> K" and "c \<in> V" and "fst c \<noteq> fst k"
  shows "well_labelled K V (dict_append k c (dict_update k [] d))"
proof -
  have "set (dict_update k [c] (dict_update k [] d)) \<subseteq> insert (k, [c]) (insert (k, []) (set d))"
    using set_dict_update [of k "[c]" "dict_update k [] d"] set_dict_update [of k "[]" d]
    by blast
  with assms show ?thesis
    unfolding dict_append_after_reset well_labelled_def by fastforce
qed

lemma well_labelled_scan:
  assumes "well_labelled K V d" and "a \<in> K" and "set cs \<subseteq> V"
  shows "well_labelled K V (ambiguity_scan a cs d)"
  using assms
proof (induction a cs d rule: ambiguity_scan.induct)
  case (1 a ambiguity_dict)
  then show ?case by simp
next
  case (2 label start e t c_label c_start c_end c_text cs ambiguity_dict)
  show ?case
  proof (cases "label = c_label")
    case True
    with 2 show ?thesis by simp
  next
    case False
    show ?thesis
    proof (cases "max 0 (min e c_end - max c_start start) \<noteq> 0")
      case True
      have "well_labelled K V
              (dict_append (label, start, e, t) (c_label, c_start, c_end, c_text)
                 (dict_update (label, start, e, t) [] ambiguity_dict))"
        using "2.prems" False by (intro well_labelled_hit) auto
      with 2 False True show ?thesis
        by (simp add: Let_def)
    next
      case no: False
      with 2 False show ?thesis
        by (simp add: Let_def)
    qed
  qed
qed

lemma well_labelled_loop:
  assumes "well_labelled K V d" and "set xs \<subseteq> K" and "set cs \<subseteq> V"
  shows "well_labelled K V (ambiguity_loop xs cs d)"
  using assms by (induction xs arbitrary: d) (simp_all add: well_labelled_scan)

lemma well_labelled_compute_ambiguity:
  "well_labelled (set (get_entity_annotations A)) (set (get_entity_annotations B))
     (compute_ambiguity A B)"
  unfolding compute_ambiguity_def
  by (rule well_labelled_loop) (simp_all add: well_labelled_def)

text \<open>The diagonal sum as a sum over the indices.\<close>

lemma diag_sum_sum: "diag_sum m = (\<Sum>a<length m. m ! a ! a)"
  by (simp add: diag_sum_def interv_sum_list_conv_sum_set_nat atLeast0LessThan)

lemma count_by_index:
  assumes "\<forall>s \<in> set S. \<exists>a<n::nat. f s = Some a"
  shows "(\<Sum>a<n. int (length (filter (\<lambda>s. f s = Some a) S))) = int (length S)"
  using assms
proof (induction S)
  case Nil
  then show ?case by simp
next
  case (Cons s S)
  then obtain i where i: "i < n" "f s = Some i"
    by auto
  have split: "(\<Sum>a<n. int (length (filter (\<lambda>s. f s = Some a) (s # S)))) =
        (\<Sum>a<n. (if a = i then 1 else 0) + int (length (filter (\<lambda>s. f s = Some a) S)))"
    using i by (intro sum.cong) auto
  have one: "(\<Sum>a<n. (if a = i then 1 else 0)) = (1::int)"
    using i by (subst sum.delta) simp_all
  have rest: "(\<Sum>a<n. int (length (filter (\<lambda>s. f s = Some a) S))) = int (length S)"
    using Cons by simp
  show ?case
    unfolding split sum.distrib one rest by simp
qed

text \<open>
  With every label in the vocabulary and a leniency within \<open>[0, 1]\<close> the matrix
  is returned, and its diagonal counts the entities of the intersection by label.
\<close>

lemma confusion_matrix_diagonal_cells:
  assumes "0 \<le> leniency" and "leniency \<le> 1"
    and la: "fst ` set (get_entity_annotations A) \<subseteq> set vocab"
    and lb: "fst ` set (get_entity_annotations B) \<subseteq> set vocab"
  shows "\<exists>m. compute_confusion_matrix A B vocab leniency = Inr m \<and>
     square (length vocab) m \<and>
     (\<forall>a<length vocab. m ! a ! a =
        int (length (filter (\<lambda>s. dict_get (entity_encoding vocab) (fst s) = Some a)
          (match_loop leniency (get_entity_annotations A) (get_entity_annotations B) []))))"
proof -
  let ?n = "length vocab"
  let ?enc = "entity_encoding vocab"
  let ?S = "match_loop leniency (get_entity_annotations A) (get_entity_annotations B) []"
  have inj: "injective_below ?n ?enc"
    by (rule injective_below_encoding)
  have known: "dict_get ?enc l \<noteq> None" if "l \<in> set vocab" for l
    using entity_encoding_dom [OF that] by auto
  have i: "intersection A B leniency = Inr ?S"
    using assms(1,2) by (rule intersection_Inr)
  have wl: "well_labelled (set (get_entity_annotations A)) (set (get_entity_annotations B))
     (compute_ambiguity A B)"
    by (rule well_labelled_compute_ambiguity)
  have amb: "\<forall>(k, amb) \<in> set (compute_ambiguity A B). dict_get ?enc (fst k) \<noteq> None \<and>
           (\<forall>s \<in> set amb. fst s \<noteq> fst k \<and> dict_get ?enc (fst s) \<noteq> None)"
  proof (clarify, intro conjI ballI)
    fix k vs
    assume kv: "(k, vs) \<in> set (compute_ambiguity A B)"
    with wl have k: "k \<in> set (get_entity_annotations A)"
      unfolding well_labelled_def by blast
    with la have "fst k \<in> set vocab" by blast
    then show "dict_get ?enc (fst k) \<noteq> None" by (rule known)
    fix s
    assume s: "s \<in> set vs"
    with wl kv have sv: "s \<in> set (get_entity_annotations B)" and ne: "fst s \<noteq> fst k"
      unfolding well_labelled_def by blast+
    from ne show "fst s \<noteq> fst k" .
    from sv lb have "fst s \<in> set vocab" by blast
    then show "dict_get ?enc (fst s) \<noteq> None" by (rule known)
  qed
  from offdiag_loop_diag [OF inj square_zero_matrix amb] obtain m1 where
    m1: "offdiag_loop ?enc (compute_ambiguity A B) (zero_matrix ?n) = Inr m1" "square ?n m1"
      "\<forall>a<?n. m1 ! a ! a = zero_matrix ?n ! a ! a"
    by blast
  have "set ?S \<subseteq> set (get_entity_annotations A)"
    unfolding set_match_loop by auto
  with la have inS: "\<forall>s \<in> set ?S. dict_get ?enc (fst s) \<noteq> None"
    using known by blast
  from diag_loop_diag [OF inj m1(2) inS] obtain m where
    m: "diag_loop ?enc ?S m1 = Inr m" "square ?n m"
      "\<forall>a<?n. m ! a ! a =
         m1 ! a ! a + int (length (filter (\<lambda>s. dict_get ?enc (fst s) = Some a) ?S))"
    by blast
  have res: "compute_confusion_matrix A B vocab leniency = Inr m"
    by (simp add: compute_confusion_matrix_def i m1(1) m(1))
  from m(3) m1(3) have "\<forall>a<?n. m ! a ! a =
        int (length (filter (\<lambda>s. dict_get ?enc (fst s) = Some a) ?S))"
    by (simp add: zero_matrix_nth)
  with res m(2) show ?thesis
    by blast
qed

text \<open>
  C8. For a leniency within \<open>[0, 1]\<close> and a vocabulary holding every label of
  both objects, \<open>compute_confusion_matrix\<close> returns a matrix in which every
  entity of \<open>intersection(left, right, leniency)\<close> has added one to the diagonal
  cell of its own label and nothing else has touched the diagonal: the cell
  \<open>[a][a]\<close> is the number of entities of the intersection whose label is encoded
  as \<open>a\<close>, and the sum of the diagonal is at most the size of the intersection.
\<close>

theorem confusion_diagonal:
  assumes "0 \<le> leniency" and "leniency \<le> 1"
    and la: "fst ` set (get_entity_annotations A) \<subseteq> set vocab"
    and lb: "fst ` set (get_entity_annotations B) \<subseteq> set vocab"
  shows "\<exists>m S. compute_confusion_matrix A B vocab leniency = Inr m \<and>
     intersection A B leniency = Inr S \<and> distinct S \<and>
     (\<forall>a<length vocab. m ! a ! a =
        int (length (filter (\<lambda>s. dict_get (entity_encoding vocab) (fst s) = Some a) S))) \<and>
     diag_sum m \<le> int (length S)"
proof -
  let ?n = "length vocab"
  let ?enc = "entity_encoding vocab"
  let ?S = "match_loop leniency (get_entity_annotations A) (get_entity_annotations B) []"
  from confusion_matrix_diagonal_cells [OF assms] obtain m where
    m: "compute_confusion_matrix A B vocab leniency = Inr m" "square ?n m"
      "\<forall>a<?n. m ! a ! a = int (length (filter (\<lambda>s. dict_get ?enc (fst s) = Some a) ?S))"
    by blast
  have i: "intersection A B leniency = Inr ?S"
    using assms(1,2) by (rule intersection_Inr)
  have dist: "distinct ?S"
    by (simp add: distinct_match_loop)
  have "set ?S \<subseteq> set (get_entity_annotations A)"
    unfolding set_match_loop by auto
  with la have "\<forall>s \<in> set ?S. fst s \<in> set vocab"
    by blast
  then have "\<forall>s \<in> set ?S. \<exists>a<?n. dict_get ?enc (fst s) = Some a"
    using entity_encoding_dom entity_encoding_Some by blast
  then have cnt: "(\<Sum>a<?n. int (length (filter (\<lambda>s. dict_get ?enc (fst s) = Some a) ?S))) =
      int (length ?S)"
    by (rule count_by_index)
  from m(2) have "length m = ?n"
    by (simp add: square_def)
  then have "diag_sum m = (\<Sum>a<?n. m ! a ! a)"
    by (simp add: diag_sum_sum)
  also have "\<dots> = (\<Sum>a<?n. int (length (filter (\<lambda>s. dict_get ?enc (fst s) = Some a) ?S)))"
    using m(3) by (intro sum.cong) auto
  finally have "diag_sum m = int (length ?S)"
    using cnt by simp
  with m(1,3) i dist show ?thesis
    by auto
qed


theorem confusion_diagonal_witness:
  "(0::real) \<le> 1/2 \<and> (1/2::real) \<le> 1 \<and>
   compute_confusion_matrix warfarin dose_and_drug [''Drug'', ''Dose''] (1/2) = Inr [[1, 1], [0, 0]] \<and>
   intersection warfarin dose_and_drug (1/2) = Inr [(''Drug'', 10, 20, ''warfarin'')] \<and>
   diag_sum [[1, 1], [0, 0]] \<le> 1"
proof -
  have h1: "(0::real) \<le> 1/2" by simp
  have h2: "(1/2::real) \<le> 1" by simp
  have h3: "fst ` set (get_entity_annotations warfarin) \<subseteq> set [''Drug'', ''Dose'']"
    by (simp add: warfarin_def get_entity_annotations_def dict_values_def)
  have h4: "fst ` set (get_entity_annotations dose_and_drug) \<subseteq> set [''Drug'', ''Dose'']"
    by (simp add: dose_and_drug_def get_entity_annotations_def dict_values_def)
  have i: "intersection warfarin dose_and_drug (1/2) = Inr [(''Drug'', 10, 20, ''warfarin'')]"
    by (simp add: intersection_def warfarin_def dose_and_drug_def eval_defs window_half_10_20)
  have a: "compute_ambiguity warfarin dose_and_drug =
      [((''Drug'', 10, 20, ''warfarin''), [(''Dose'', 12, 18, ''5mg'')])]"
    by (simp add: compute_ambiguity_def warfarin_def dose_and_drug_def eval_defs)
  have c: "compute_confusion_matrix warfarin dose_and_drug [''Drug'', ''Dose''] (1/2) =
      Inr [[1, 1], [0, 0]]"
    by (simp add: compute_confusion_matrix_def i a entity_encoding_def zero_matrix_def
        increment_def dict_get_def upt_rec [of 0 2] upt_rec [of 1 2] enumerate_eq_zip)
  show ?thesis
    using h1 h2 i c confusion_diagonal [OF h1 h2 h3 h4] by auto
qed

end
